theory Spec2Isabelle
  imports Complex_Main "HOL-Library.Multiset"
begin

section \<open>Characters and the string functions of the host language\<close>

text \<open>
  A string is a list of 8-bit characters, the code points below 256. On these code
  points \<open>str.isspace\<close>, \<open>str.strip()\<close> and the pattern class \<open>\s\<close> agree on one
  set of whitespace characters, and the class \<open>\d\<close> holds the ten ASCII digits.
  Text with code points from 256 on is outside the model.
\<close>

definition isspace :: "char \<Rightarrow> bool" where
  "isspace c = (of_char c \<in> {9, 10, 11, 12, 13, 28, 29, 30, 31, 32, 133, 160 :: nat})"

definition nonspace :: "char \<Rightarrow> bool" where
  \<comment> \<open>the class \<open>\S\<close>\<close>
  "nonspace c = (\<not> isspace c)"

definition isdigit :: "char \<Rightarrow> bool" where
  \<comment> \<open>the class \<open>\d\<close>\<close>
  "isdigit c = (c \<in> set ''0123456789'')"

definition digit_or_dot :: "char \<Rightarrow> bool" where
  \<comment> \<open>the class \<open>[\d\.]\<close>\<close>
  "digit_or_dot c = (isdigit c \<or> c = CHR ''.'')"

definition not_underscore :: "char \<Rightarrow> bool" where
  \<comment> \<open>the class \<open>[^_]\<close>\<close>
  "not_underscore c = (c \<noteq> CHR ''_'')"

definition strip :: "string \<Rightarrow> string" where
  \<comment> \<open>\<open>line.strip()\<close>: whitespace removed at both ends\<close>
  "strip s = rev (dropWhile isspace (rev (dropWhile isspace s)))"

text \<open>
  \<open>float(s)\<close> on the strings the parser passes to it, which hold digits and dots only
  (lemma \<open>factor_token_chars\<close> below): the conversion succeeds when the string has at
  least one digit and at most one dot (lemma \<open>py_float_None\<close>), and raises ValueError
  otherwise. The result is
  kept as the exact decimal value; the rounding to a binary floating-point number is
  not part of the model.
\<close>

definition digits_value :: "string \<Rightarrow> nat" where
  "digits_value ds = foldl (\<lambda>n c. 10 * n + (of_char c - 48)) 0 ds"

definition py_float :: "string \<Rightarrow> rat option" where
  "py_float s =
     (let ip = takeWhile isdigit s; r = dropWhile isdigit s in
      case r of
        [] \<Rightarrow> if ip = [] then None else Some (of_nat (digits_value ip))
      | c # fp \<Rightarrow>
          if c = CHR ''.'' \<and> list_all isdigit fp \<and> (ip \<noteq> [] \<or> fp \<noteq> [])
          then Some (of_nat (digits_value ip) + of_nat (digits_value fp) / 10 ^ length fp)
          else None)"

section \<open>Pattern matching\<close>

text \<open>
  The two patterns of the parser use literal characters, greedy repetition of a
  character class, sequencing, the greedy option \<open>(...)?\<close> and numbered groups.
  \<open>matches\<close> lists every way a pattern matches a prefix of the input, in the order
  in which a backtracking matcher tries them: a greedy repetition tries the longest run
  first, an option tries its body before skipping it. Each result is the input left
  over, paired with the groups captured so far. \<open>re_match\<close> is \<open>pattern.match(s)\<close>:
  the first result, or None when there is none.
\<close>

datatype re =
    Lit char
  | Star "char \<Rightarrow> bool"
  | Seq re re
  | Opt re
  | Grp nat re

type_synonym groups = "nat \<rightharpoonup> string"
type_synonym match = "string \<times> groups"

fun star :: "(char \<Rightarrow> bool) \<Rightarrow> string \<Rightarrow> string list" where
  "star p [] = [[]]"
| "star p (x # xs) = (if p x then star p xs @ [x # xs] else [x # xs])"

fun matches :: "re \<Rightarrow> match \<Rightarrow> match list" where
  "matches (Lit c) (s, g) =
     (case s of [] \<Rightarrow> [] | x # xs \<Rightarrow> if x = c then [(xs, g)] else [])"
| "matches (Star p) (s, g) = map (\<lambda>s'. (s', g)) (star p s)"
| "matches (Seq a b) m = concat (map (matches b) (matches a m))"
| "matches (Opt a) m = matches a m @ [m]"
| "matches (Grp i a) (s, g) =
     map (\<lambda>(s', g'). (s', g'(i \<mapsto> take (length s - length s') s))) (matches a (s, g))"

definition re_match :: "re \<Rightarrow> string \<Rightarrow> match option" where
  "re_match p s = (case matches p (s, Map.empty) of [] \<Rightarrow> None | m # _ \<Rightarrow> Some m)"

definition group :: "match \<Rightarrow> nat \<Rightarrow> string option" where
  \<comment> \<open>\<open>m.group(i)\<close>: None for a group that took no part in the match\<close>
  "group m i = snd m i"

definition line_pattern :: re where
  \<comment> \<open>\<open>(\S*)(?:\s*([\d\.]*))?(?:\s*co\((\S*)\))?\<close>\<close>
  "line_pattern =
     Seq (Grp 1 (Star nonspace))
    (Seq (Opt (Seq (Star isspace) (Grp 2 (Star digit_or_dot))))
         (Opt (Seq (Star isspace)
              (Seq (Lit CHR ''c'')
              (Seq (Lit CHR ''o'')
              (Seq (Lit CHR ''('')
              (Seq (Grp 3 (Star nonspace))
                   (Lit CHR '')''))))))))"

definition name_pattern :: re where
  \<comment> \<open>\<open>[^_]*_([^_]*)_\<close>\<close>
  "name_pattern =
     Seq (Star not_underscore)
    (Seq (Lit CHR ''_'')
    (Seq (Grp 1 (Star not_underscore))
         (Lit CHR ''_'')))"

section \<open>The parser\<close>

text \<open>
  A transporter is the tuple (name, flux factor, cotransporter name); the last two are
  None when the line does not give them. The errors are the exceptions that leave
  \<open>parse\<close> and \<open>split_by_type\<close>: the ValueError with the token and the line number,
  the SyntaxError with the line number, the SyntaxError with the transporter name, and
  the TypeError and IndexError that the interpreter would raise by itself.
\<close>

type_synonym transporter = "string \<times> rat option \<times> string option"

datatype error =
    ValueError string nat
  | SyntaxError_line nat
  | SyntaxError_name string
  | TypeError
  | IndexError

text \<open>
  The body of the loop of \<open>parse\<close> for the line numbered \<open>line_no\<close>: \<open>Inr None\<close> for
  a line that is skipped, \<open>Inr (Some t)\<close> for the tuple that is appended, \<open>Inl e\<close> for
  the exception. A match object of None makes \<open>m.group\<close> raise the AttributeError
  that becomes the SyntaxError; \<open>float\<close> of None would raise a TypeError, which no
  handler catches. Group 1 stands outside every option of the line pattern, so a match
  always binds it (lemma \<open>line_pattern_groups\<close>); the model has to name a result for
  an unbound group 1 and uses TypeError.
\<close>

definition parse_line :: "nat \<Rightarrow> string \<Rightarrow> error + transporter option" where
  "parse_line line_no l =
     (let line = strip l in
      if line = [] \<or> hd line = CHR ''#'' then Inr None
      else case re_match line_pattern line of
             None \<Rightarrow> Inl (SyntaxError_line line_no)
           | Some m \<Rightarrow>
              (case group m 1 of
                 None \<Rightarrow> Inl TypeError
               | Some transname \<Rightarrow>
                  (case group m 2 of
                     None \<Rightarrow> Inl TypeError
                   | Some transfac \<Rightarrow>
                       if transfac = [] then Inr (Some (transname, None, group m 3))
                       else (case py_float transfac of
                               None \<Rightarrow> Inl (ValueError transfac line_no)
                             | Some f \<Rightarrow> Inr (Some (transname, Some f, group m 3))))))"

text \<open>
  The loop over the lines of the file. \<open>line_no\<close> is the number of lines read so far,
  \<open>transporters\<close> the list \<open>self.transporters\<close>; the result is that list as the
  loop leaves it, and the exception if one was raised.
\<close>

fun parse_loop :: "nat \<Rightarrow> string list \<Rightarrow> transporter list \<Rightarrow> transporter list \<times> error option" where
  "parse_loop line_no [] transporters = (transporters, None)"
| "parse_loop line_no (l # ls) transporters =
     (case parse_line (line_no + 1) l of
        Inl e \<Rightarrow> (transporters, Some e)
      | Inr None \<Rightarrow> parse_loop (line_no + 1) ls transporters
      | Inr (Some t) \<Rightarrow> parse_loop (line_no + 1) ls (transporters @ [t]))"

text \<open>
  \<open>parse\<close> on an instance whose list is \<open>transporters\<close> and a file whose lines are
  \<open>lines\<close>: the first component is \<open>self.transporters\<close> after the call, the second
  the exception raised or the list returned. Opening and decoding the file are not part
  of the model: the input is the list of lines that iterating over the file gives.
\<close>

definition parse :: "transporter list \<Rightarrow> string list \<Rightarrow> transporter list \<times> (error + transporter list)" where
  "parse transporters lines =
     (case parse_loop 0 lines transporters of
        (ts, Some e) \<Rightarrow> (ts, Inl e)
      | (ts, None) \<Rightarrow> (ts, Inr ts))"

definition clear :: "transporter list \<Rightarrow> transporter list" where
  "clear transporters = []"

section \<open>Splitting by type\<close>

type_synonym typed_transporter = "string \<times> transporter"

text \<open>
  The loop of \<open>split_by_type\<close>, with the dictionary from type to index and the list of
  lists as they stand. The list is updated at the index the dictionary gives; an index
  out of range would raise IndexError. A name that the name pattern does not match
  gives a match object of None, and \<open>m.group\<close> raises the AttributeError that
  becomes the SyntaxError. Group 1 of the name pattern stands outside every option, so a
  match always binds it (lemma \<open>name_type_Some\<close>); the model has to name a result
  for an unbound group 1 and uses TypeError.
\<close>

fun split_loop ::
  "transporter list \<Rightarrow> (string \<rightharpoonup> nat) \<Rightarrow> typed_transporter list list
     \<Rightarrow> error + typed_transporter list list" where
  "split_loop [] dict_of_types list_of_lists = Inr list_of_lists"
| "split_loop (entry # l) dict_of_types list_of_lists =
     (case re_match name_pattern (fst entry) of
        None \<Rightarrow> Inl (SyntaxError_name (fst entry))
      | Some m \<Rightarrow>
         (case group m 1 of
            None \<Rightarrow> Inl TypeError
          | Some typ \<Rightarrow>
             (case dict_of_types typ of
                None \<Rightarrow>
                  split_loop l (dict_of_types(typ \<mapsto> length list_of_lists))
                    (list_of_lists @ [[(typ, entry)]])
              | Some i \<Rightarrow>
                  if i < length list_of_lists
                  then split_loop l dict_of_types
                         (list_of_lists[i := list_of_lists ! i @ [(typ, entry)]])
                  else Inl IndexError)))"

definition split_by_type ::
  "transporter list \<Rightarrow> transporter list option \<Rightarrow> error + typed_transporter list list" where
  "split_by_type transporters l =
     split_loop (case l of None \<Rightarrow> transporters | Some l' \<Rightarrow> l') Map.empty []"

section \<open>Notions used to state the properties\<close>

text \<open>
  The name token and the factor token of a stripped line, as the line pattern finds
  them: the longest run of non-whitespace characters at the start, and the longest run
  of digits and dots after the whitespace that follows it.
\<close>

definition name_token :: "string \<Rightarrow> string" where
  "name_token line = takeWhile nonspace line"

definition factor_token :: "string \<Rightarrow> string" where
  "factor_token line = takeWhile digit_or_dot (dropWhile isspace (dropWhile nonspace line))"

text \<open>
  The cotransporter token: after the factor token and whitespace the text \<open>co(\<close>,
  then the run of non-whitespace characters up to its last closing parenthesis, which
  the run must hold. \<open>last_split p c s\<close> cuts the run of \<open>p\<close> characters at the
  start of \<open>s\<close> at its last \<open>c\<close>: the text before it, and the text after it.
\<close>

fun last_split :: "(char \<Rightarrow> bool) \<Rightarrow> char \<Rightarrow> string \<Rightarrow> (string \<times> string) option" where
  "last_split p c [] = None"
| "last_split p c (x # xs) =
     (if p x then
        (case last_split p c xs of
           Some (a, b) \<Rightarrow> Some (x # a, b)
         | None \<Rightarrow> if x = c then Some ([], xs) else None)
      else None)"

definition co_clause :: "string \<Rightarrow> string option" where
  "co_clause s =
     (case dropWhile isspace s of
        c1 # c2 # c3 # rest \<Rightarrow>
          if c1 = CHR ''c'' \<and> c2 = CHR ''o'' \<and> c3 = CHR ''(''
          then map_option fst (last_split nonspace CHR '')'' rest) else None
      | _ \<Rightarrow> None)"

definition co_token :: "string \<Rightarrow> string option" where
  "co_token line =
     co_clause (dropWhile digit_or_dot (dropWhile isspace (dropWhile nonspace line)))"

text \<open>A line that is neither blank nor a comment, and one whose factor token does not convert.\<close>

definition data_line :: "string \<Rightarrow> bool" where
  "data_line l = (strip l \<noteq> [] \<and> hd (strip l) \<noteq> CHR ''#'')"

definition bad_factor :: "string \<Rightarrow> bool" where
  "bad_factor l =
     (data_line l \<and> factor_token (strip l) \<noteq> [] \<and> py_float (factor_token (strip l)) = None)"

text \<open>
  The type code of a name, read off the name pattern: group 1 of the match, None when
  the name does not match. \<open>type_code\<close> is the same in closed form: the text between
  the first and the second underscore.
\<close>

definition name_type :: "string \<Rightarrow> string option" where
  "name_type name = (case re_match name_pattern name of None \<Rightarrow> None | Some m \<Rightarrow> group m 1)"

definition type_code :: "string \<Rightarrow> string option" where
  "type_code name =
     (case dropWhile not_underscore name of
        [] \<Rightarrow> None
      | _ # r \<Rightarrow>
         (case dropWhile not_underscore r of
            [] \<Rightarrow> None
          | _ # _ \<Rightarrow> Some (takeWhile not_underscore r)))"

text \<open>
  The grouping as the specification words it: the distinct type codes in the order of
  their first occurrence, and for each of them the records of that type in input order.
\<close>

fun first_seen :: "'a list \<Rightarrow> 'a list" where
  "first_seen [] = []"
| "first_seen (x # xs) = x # removeAll x (first_seen xs)"

definition typed :: "transporter \<Rightarrow> typed_transporter" where
  "typed entry = (the (name_type (fst entry)), entry)"

definition groups_in_order :: "typed_transporter list \<Rightarrow> typed_transporter list list" where
  "groups_in_order es = map (\<lambda>t. filter (\<lambda>e. fst e = t) es) (first_seen (map fst es))"

text \<open>The group numbers that a pattern can bind.\<close>

fun grps :: "re \<Rightarrow> nat set" where
  "grps (Lit c) = {}"
| "grps (Star p) = {}"
| "grps (Seq a b) = grps a \<union> grps b"
| "grps (Opt a) = grps a"
| "grps (Grp i a) = insert i (grps a)"

section \<open>The patterns\<close>

lemma star_hd: "\<exists>rest. star p s = dropWhile p s # rest"
  by (induction s) auto

lemma star_then_lit:
  assumes "\<And>x. p x \<Longrightarrow> x \<noteq> c"
  shows "concat (map (\<lambda>s'. matches (Lit c) (s', f s')) (star p s)) =
     (case dropWhile p s of [] \<Rightarrow> [] | x # r \<Rightarrow> if x = c then [(r, f (x # r))] else [])"
  using assms by (induction s) auto

lemma take_length_dropWhile: "take (length s - length (dropWhile p s)) s = takeWhile p s"
proof -
  have "length (takeWhile p s) + length (dropWhile p s) = length s"
    by (metis length_append takeWhile_dropWhile_id)
  then have "length s - length (dropWhile p s) = length (takeWhile p s)" by simp
  then show ?thesis by (simp add: takeWhile_eq_take [symmetric])
qed

lemma matches_keeps_groups:
  "m' \<in> set (matches r m) \<Longrightarrow> i \<notin> grps r \<Longrightarrow> snd m' i = snd m i"
proof (induction r arbitrary: m m')
  case (Lit c)
  then show ?case by (cases m) (auto split: list.splits if_splits)
next
  case (Star p)
  then show ?case by (cases m) auto
next
  case (Seq a b)
  from Seq.prems obtain x where x: "x \<in> set (matches a m)" "m' \<in> set (matches b x)"
    by auto
  from Seq.prems have "i \<notin> grps a" "i \<notin> grps b" by auto
  then have "snd m' i = snd x i" "snd x i = snd m i"
    using x Seq.IH by blast+
  then show ?case by simp
next
  case (Opt a)
  from Opt.prems have "m' \<in> set (matches a m) \<or> m' = m" "i \<notin> grps a" by auto
  then show ?case using Opt.IH by blast
next
  case (Grp j a)
  then show ?case by (cases m) fastforce
qed

lemma matches_Seq_hd:
  "matches a m = x # xs \<Longrightarrow> matches b x = y # ys \<Longrightarrow> \<exists>zs. matches (Seq a b) m = y # zs"
  by simp

lemma matches_Star_hd: "\<exists>rest. matches (Star p) (s, g) = (dropWhile p s, g) # rest"
  using star_hd [of p s] by auto

lemma matches_Grp_Star_hd:
  "\<exists>rest. matches (Grp i (Star p)) (s, g) = (dropWhile p s, g(i \<mapsto> takeWhile p s)) # rest"
  using star_hd [of p s] by (auto simp: take_length_dropWhile)

lemma star_then:
  assumes "\<And>x xs. p x \<Longrightarrow> F (x # xs) = []"
  shows "concat (map F (star p s)) = F (dropWhile p s)"
  using assms by (induction s) auto

lemma last_split_length:
  "last_split p c s = Some (a, b) \<Longrightarrow> s = a @ c # b"
proof (induction s arbitrary: a)
  case Nil
  then show ?case by simp
next
  case (Cons x xs)
  then show ?case by (auto split: if_splits option.splits)
qed

lemma star_lit_hd:
  assumes "p c"
  shows "(case concat (map (\<lambda>s'. matches (Lit c) (s', f s')) (star p s)) of
            [] \<Rightarrow> last_split p c s = None
          | m # _ \<Rightarrow> (\<exists>a b. last_split p c s = Some (a, b) \<and> m = (b, f (c # b))))"
proof (induction s)
  case Nil
  then show ?case by simp
next
  case (Cons x xs)
  let ?F = "\<lambda>s'. matches (Lit c) (s', f s')"
  let ?G = "\<lambda>s. concat (map ?F (star p s))"
  have F: "?F (x # xs) = (if x = c then [(xs, f (x # xs))] else [])" by simp
  show ?case
  proof (cases "p x")
    case False
    then have "x \<noteq> c" using assms by auto
    then have g: "?G (x # xs) = []" using False by simp
    have l: "last_split p c (x # xs) = None" using False by simp
    show ?thesis unfolding g l by simp
  next
    case True
    then have G: "?G (x # xs) = ?G xs @ ?F (x # xs)" by simp
    show ?thesis
    proof (cases "?G xs")
      case Nil
      from Cons.IH have n: "last_split p c xs = None"
        unfolding Nil by simp
      have g: "?G (x # xs) = (if x = c then [(xs, f (x # xs))] else [])"
        unfolding G Nil F by simp
      have l: "last_split p c (x # xs) = (if x = c then Some ([], xs) else None)"
        using True n by simp
      show ?thesis unfolding g l by simp
    next
      case (Cons m ms)
      from Cons.IH obtain a b where ab: "last_split p c xs = Some (a, b)" "m = (b, f (c # b))"
        unfolding Cons by auto
      have g: "?G (x # xs) = m # (ms @ ?F (x # xs))" unfolding G Cons by simp
      have l: "last_split p c (x # xs) = Some (x # a, b)" using True ab by simp
      show ?thesis unfolding g l using ab by (simp del: matches.simps)
    qed
  qed
qed

lemma matches_Lit_Seq:
  "matches (Seq (Lit c) r) (s, g) =
     (case s of [] \<Rightarrow> [] | x # xs \<Rightarrow> if x = c then matches r (xs, g) else [])"
  by (cases s) simp_all

lemma matches_Lit3_Seq:
  "matches (Seq (Lit a) (Seq (Lit b) (Seq (Lit c) r))) (s, g) =
     (case s of
        c1 # c2 # c3 # rest \<Rightarrow> if c1 = a \<and> c2 = b \<and> c3 = c then matches r (rest, g) else []
      | _ \<Rightarrow> [])"
  by (simp only: matches_Lit_Seq split: list.splits) auto

lemma matches_paren_hd:
  "(case matches (Seq (Grp i (Star nonspace)) (Lit CHR '')'')) (s, g) of
      [] \<Rightarrow> last_split nonspace CHR '')'' s = None
    | m # _ \<Rightarrow> (\<exists>a b. last_split nonspace CHR '')'' s = Some (a, b) \<and> m = (b, g(i \<mapsto> a))))"
proof -
  let ?f = "\<lambda>s'. g(i \<mapsto> take (length s - length s') s)"
  let ?L = "concat (map (\<lambda>s'. matches (Lit CHR '')'') (s', ?f s')) (star nonspace s))"
  have eq: "matches (Seq (Grp i (Star nonspace)) (Lit CHR '')'')) (s, g) = ?L"
    by (simp add: comp_def)
  have p: "nonspace CHR '')''" by (simp add: nonspace_def isspace_def)
  have h: "(case ?L of [] \<Rightarrow> last_split nonspace CHR '')'' s = None
    | m # _ \<Rightarrow> (\<exists>a b. last_split nonspace CHR '')'' s = Some (a, b) \<and> m = (b, ?f (CHR '')'' # b))))"
    by (rule star_lit_hd [where p = nonspace and c = "CHR '')''", OF p])
  show ?thesis
  proof (cases ?L)
    case Nil
    from h have "last_split nonspace CHR '')'' s = None" unfolding Nil by simp
    then show ?thesis unfolding eq Nil by simp
  next
    case (Cons m ms)
    from h obtain a b where ab: "last_split nonspace CHR '')'' s = Some (a, b)"
        "m = (b, ?f (CHR '')'' # b))" unfolding Cons by auto
    have "s = a @ CHR '')'' # b" using ab(1) by (rule last_split_length)
    then have "take (length s - length (CHR '')'' # b)) s = a" by simp
    then have "m = (b, g(i \<mapsto> a))" using ab(2) by simp
    then show ?thesis using ab(1) unfolding eq Cons by simp
  qed
qed

lemma case_prefix3:
  "(case s of c1 # c2 # c3 # rest \<Rightarrow> if c1 = a \<and> c2 = b \<and> c3 = c then F rest else d | _ \<Rightarrow> d) =
     (if \<exists>rest. s = a # b # c # rest then F (drop 3 s) else d)"
  by (auto split: list.splits)

lemma matches_co_clause:
  assumes "g 3 = None"
  shows "\<exists>m rest. matches (Opt (Seq (Star isspace)
              (Seq (Lit CHR ''c'')
              (Seq (Lit CHR ''o'')
              (Seq (Lit CHR ''('')
              (Seq (Grp 3 (Star nonspace))
                   (Lit CHR '')''))))))) (s, g) = m # rest
           \<and> snd m 3 = co_clause s"
proof -
  let ?Y = "Seq (Grp 3 (Star nonspace)) (Lit CHR '')'')"
  let ?R = "Seq (Lit CHR ''c'') (Seq (Lit CHR ''o'') (Seq (Lit CHR ''('') ?Y))"
  let ?B = "Seq (Star isspace) ?R"
  let ?s4 = "dropWhile isspace s"
  have sp: "\<And>x xs. isspace x \<Longrightarrow> matches ?R (x # xs, g) = []"
  proof -
    fix x xs assume "isspace x"
    then have "x \<noteq> CHR ''c''" by (auto simp: isspace_def)
    then show "matches ?R (x # xs, g) = []" by (simp only: matches_Lit_Seq list.case if_False)
  qed
  have "matches ?B (s, g) = concat (map (\<lambda>s'. matches ?R (s', g)) (star isspace s))"
    by (simp only: matches.simps map_map comp_def)
  also have "\<dots> = matches ?R (?s4, g)"
    by (rule star_then [where F = "\<lambda>s'. matches ?R (s', g)"]) (rule sp)
  finally have B: "matches ?B (s, g) = matches ?R (?s4, g)" .
  have R: "matches ?R (?s4, g) =
     (case ?s4 of
        c1 # c2 # c3 # rest \<Rightarrow>
          if c1 = CHR ''c'' \<and> c2 = CHR ''o'' \<and> c3 = CHR ''('' then matches ?Y (rest, g) else []
      | _ \<Rightarrow> [])"
    by (rule matches_Lit3_Seq)
  have O: "matches (Opt ?B) (s, g) = matches ?R (?s4, g) @ [(s, g)]"
    using B by (simp only: matches.simps)
  have Rif: "matches ?R (?s4, g) =
     (if \<exists>rest. ?s4 = CHR ''c'' # CHR ''o'' # CHR ''('' # rest
      then matches ?Y (drop 3 ?s4, g) else [])"
    unfolding R by (rule case_prefix3 [where F = "\<lambda>rest. matches ?Y (rest, g)"])
  have cif: "co_clause s =
     (if \<exists>rest. ?s4 = CHR ''c'' # CHR ''o'' # CHR ''('' # rest
      then map_option fst (last_split nonspace CHR '')'' (drop 3 ?s4)) else None)"
    unfolding co_clause_def
    by (rule case_prefix3 [where F = "\<lambda>rest. map_option fst (last_split nonspace CHR '')'' rest)"])
  show ?thesis
  proof (cases "\<exists>rest. ?s4 = CHR ''c'' # CHR ''o'' # CHR ''('' # rest")
    case False
    have r0: "matches ?R (?s4, g) = []" unfolding Rif using False by (simp only: if_False)
    have c0: "co_clause s = None" unfolding cif using False by (simp only: if_False)
    show ?thesis unfolding O r0 c0 using assms by simp
  next
    case True
    let ?rest = "drop 3 ?s4"
    have R': "matches ?R (?s4, g) = matches ?Y (?rest, g)"
      unfolding Rif using True by (simp only: if_True)
    have co: "co_clause s = map_option fst (last_split nonspace CHR '')'' ?rest)"
      unfolding cif using True by (simp only: if_True)
    have h: "(case matches ?Y (?rest, g) of
        [] \<Rightarrow> last_split nonspace CHR '')'' ?rest = None
      | m # _ \<Rightarrow> (\<exists>a b. last_split nonspace CHR '')'' ?rest = Some (a, b) \<and> m = (b, g(3 \<mapsto> a))))"
      by (rule matches_paren_hd)
    show ?thesis
    proof (cases "matches ?Y (?rest, g)")
      case Nil
      from h have "last_split nonspace CHR '')'' ?rest = None" unfolding Nil by simp
      then show ?thesis unfolding O R' Nil co using assms by simp
    next
      case (Cons m ms)
      from h obtain a b where "last_split nonspace CHR '')'' ?rest = Some (a, b)" "m = (b, g(3 \<mapsto> a))"
        unfolding Cons by auto
      then show ?thesis unfolding O R' Cons co by simp
    qed
  qed
qed

lemma line_pattern_match:
  "\<exists>m. re_match line_pattern s = Some m \<and> group m 1 = Some (name_token s)
         \<and> group m 2 = Some (factor_token s) \<and> group m 3 = co_token s"
proof -
  let ?B = "Seq (Star isspace) (Seq (Lit CHR ''c'') (Seq (Lit CHR ''o'') (Seq (Lit CHR ''('')
              (Seq (Grp 3 (Star nonspace)) (Lit CHR '')'')))))"
  let ?A = "Seq (Star isspace) (Grp 2 (Star digit_or_dot))"
  let ?g1 = "(Map.empty :: groups)(1 \<mapsto> takeWhile nonspace s)"
  let ?s1 = "dropWhile nonspace s"
  let ?s2 = "dropWhile isspace ?s1"
  let ?g2 = "?g1(2 \<mapsto> takeWhile digit_or_dot ?s2)"
  let ?m2 = "(dropWhile digit_or_dot ?s2, ?g2)"
  obtain r1 where r1: "matches (Grp 1 (Star nonspace)) (s, Map.empty) = (?s1, ?g1) # r1"
    using matches_Grp_Star_hd by blast
  obtain ra where ra: "matches (Star isspace) (?s1, ?g1) = (?s2, ?g1) # ra"
    using matches_Star_hd by blast
  obtain rb where rb: "matches (Grp 2 (Star digit_or_dot)) (?s2, ?g1) = ?m2 # rb"
    using matches_Grp_Star_hd by blast
  obtain rc where rc: "matches ?A (?s1, ?g1) = ?m2 # rc"
    using matches_Seq_hd [OF ra rb] by blast
  have "?g2 3 = None" by simp
  from matches_co_clause [where g = ?g2 and s = "dropWhile digit_or_dot ?s2", OF this]
  obtain m rd where rd: "matches (Opt ?B) ?m2 = m # rd"
      and co: "snd m 3 = co_clause (dropWhile digit_or_dot ?s2)"
    by blast
  have "m \<in> set (matches (Opt ?B) ?m2)" using rd by simp
  then have keep: "snd m 1 = ?g2 1" "snd m 2 = ?g2 2"
    using matches_keeps_groups [of m "Opt ?B" ?m2 1] matches_keeps_groups [of m "Opt ?B" ?m2 2]
    by simp_all
  have "matches (Opt ?A) (?s1, ?g1) = ?m2 # (rc @ [(?s1, ?g1)])"
    using rc by simp
  then obtain re where "matches (Seq (Opt ?A) (Opt ?B)) (?s1, ?g1) = m # re"
    using matches_Seq_hd rd by blast
  then obtain rf where "matches line_pattern (s, Map.empty) = m # rf"
    unfolding line_pattern_def using matches_Seq_hd r1 by blast
  then have "re_match line_pattern s = Some m" by (simp add: re_match_def)
  then show ?thesis
    using keep co by (simp add: group_def name_token_def factor_token_def co_token_def)
qed

lemma line_pattern_groups:
  "\<exists>m. re_match line_pattern s = Some m \<and> group m 1 = Some (name_token s)
         \<and> group m 2 = Some (factor_token s)"
  using line_pattern_match [of s] by blast


lemma concat_map_concat:
  "concat (map f (concat (map h xs))) = concat (map (\<lambda>x. concat (map f (h x))) xs)"
  by (induction xs) auto

lemma matches_Seq_fun: "matches (Seq b c) = (\<lambda>x. concat (map (matches c) (matches b x)))"
  by (rule ext) simp

lemma matches_Seq_assoc: "matches (Seq a (Seq b c)) m = matches (Seq (Seq a b) c) m"
  by (simp add: concat_map_concat matches_Seq_fun)

lemma dropWhile_not_underscore_cases:
  "dropWhile not_underscore s = [] \<or> (\<exists>r. dropWhile not_underscore s = CHR ''_'' # r)"
proof (cases "dropWhile not_underscore s")
  case Nil
  then show ?thesis by simp
next
  case (Cons x r)
  then have "\<not> not_underscore x" using hd_dropWhile [of not_underscore s] by simp
  then show ?thesis using Cons by (simp add: not_underscore_def)
qed

lemma matches_Star_Lit:
  "matches (Seq (Star not_underscore) (Lit CHR ''_'')) (s, g) =
     (case dropWhile not_underscore s of [] \<Rightarrow> [] | x # r \<Rightarrow> [(r, g)])"
proof -
  have "matches (Seq (Star not_underscore) (Lit CHR ''_'')) (s, g) =
          concat (map (\<lambda>s'. matches (Lit CHR ''_'') (s', g)) (star not_underscore s))"
    by (simp add: comp_def)
  also have "\<dots> = (case dropWhile not_underscore s of [] \<Rightarrow> []
                     | x # r \<Rightarrow> if x = CHR ''_'' then [(r, g)] else [])"
    by (rule star_then_lit) (simp add: not_underscore_def)
  finally show ?thesis
    using dropWhile_not_underscore_cases [of s]
    by (cases "dropWhile not_underscore s") (simp_all del: dropWhile_eq_Nil_conv)
qed

lemma matches_Grp_Star_Lit:
  "matches (Seq (Grp i (Star not_underscore)) (Lit CHR ''_'')) (s, g) =
     (case dropWhile not_underscore s of [] \<Rightarrow> []
      | x # r \<Rightarrow> [(r, g(i \<mapsto> takeWhile not_underscore s))])"
proof -
  let ?f = "\<lambda>s'. g(i \<mapsto> take (length s - length s') s)"
  have "matches (Seq (Grp i (Star not_underscore)) (Lit CHR ''_'')) (s, g) =
          concat (map (\<lambda>s'. matches (Lit CHR ''_'') (s', ?f s')) (star not_underscore s))"
    by (simp add: comp_def)
  also have "\<dots> = (case dropWhile not_underscore s of [] \<Rightarrow> []
                     | x # r \<Rightarrow> if x = CHR ''_'' then [(r, ?f (x # r))] else [])"
    by (rule star_then_lit) (simp add: not_underscore_def)
  finally show ?thesis
    using dropWhile_not_underscore_cases [of s] take_length_dropWhile [of s not_underscore]
    by (cases "dropWhile not_underscore s") (simp_all del: dropWhile_eq_Nil_conv)
qed

lemma matches_name_pattern:
  "matches name_pattern (s, g) =
     (case dropWhile not_underscore s of
        [] \<Rightarrow> []
      | x # r \<Rightarrow>
         (case dropWhile not_underscore r of
            [] \<Rightarrow> []
          | y # r' \<Rightarrow> [(r', g(1 \<mapsto> takeWhile not_underscore r))]))"
proof -
  have "matches name_pattern (s, g) =
          matches (Seq (Seq (Star not_underscore) (Lit CHR ''_''))
                       (Seq (Grp 1 (Star not_underscore)) (Lit CHR ''_''))) (s, g)"
    unfolding name_pattern_def by (rule matches_Seq_assoc)
  also have "\<dots> = concat (map (matches (Seq (Grp 1 (Star not_underscore)) (Lit CHR ''_'')))
            (matches (Seq (Star not_underscore) (Lit CHR ''_'')) (s, g)))"
    by (rule matches.simps)
  finally show ?thesis
    by (simp add: matches_Star_Lit matches_Grp_Star_Lit del: matches.simps dropWhile_eq_Nil_conv
        split: list.splits)
qed

lemma re_match_name_pattern:
  "re_match name_pattern s = None \<longleftrightarrow> type_code s = None"
  "re_match name_pattern s = Some m \<Longrightarrow> group m 1 = type_code s"
  by (auto simp: re_match_def matches_name_pattern type_code_def group_def
      simp del: dropWhile_eq_Nil_conv split: list.splits)

lemma name_type_eq: "name_type s = type_code s"
  by (auto simp: name_type_def re_match_def matches_name_pattern type_code_def group_def
      simp del: dropWhile_eq_Nil_conv split: list.splits)

section \<open>The conversion of the factor token\<close>

lemma factor_token_chars: "\<forall>c \<in> set (factor_token line). digit_or_dot c"
  by (auto simp: factor_token_def dest: set_takeWhileD)

lemma isdigit_not_dot: "isdigit c \<Longrightarrow> c \<noteq> CHR ''.''"
  by (auto simp: isdigit_def)

lemma count_dot_digits: "\<forall>c \<in> set s. isdigit c \<Longrightarrow> count_list s CHR ''.'' = 0"
  by (induction s) (auto dest: isdigit_not_dot)

lemma count_list_split:
  "count_list s c = count_list (takeWhile P s) c + count_list (dropWhile P s) c"
  by (induction s) auto

lemma py_float_None:
  assumes "\<forall>c \<in> set s. digit_or_dot c"
  shows "py_float s = None \<longleftrightarrow> (\<forall>c \<in> set s. \<not> isdigit c) \<or> 2 \<le> count_list s CHR ''.''"
proof -
  let ?ip = "takeWhile isdigit s" and ?r = "dropWhile isdigit s"
  have s: "s = ?ip @ ?r" by simp
  have ip: "\<forall>c \<in> set ?ip. isdigit c" by (auto dest: set_takeWhileD)
  have "count_list s CHR ''.'' = count_list ?ip CHR ''.'' + count_list ?r CHR ''.''"
    by (rule count_list_split)
  then have cnt: "count_list s CHR ''.'' = count_list ?r CHR ''.''"
    using count_dot_digits [OF ip] by simp
  show ?thesis
  proof (cases ?r)
    case Nil
    then have all: "\<forall>c \<in> set s. isdigit c" using ip by (subst s) simp
    have "py_float s = (if ?ip = [] then None else Some (of_nat (digits_value ?ip)))"
      by (simp only: py_float_def Let_def Nil list.case)
    then have "py_float s = None \<longleftrightarrow> ?ip = []" by simp
    moreover have "?ip = s" using all by simp
    ultimately have 1: "py_float s = None \<longleftrightarrow> s = []" by simp
    have 2: "count_list s CHR ''.'' = 0" using count_dot_digits [OF all] .
    have 3: "(\<forall>c \<in> set s. \<not> isdigit c) \<longleftrightarrow> s = []" using all by (cases s) auto
    show ?thesis using 1 2 3 by simp
  next
    case (Cons c fp)
    have "c \<in> set s" using Cons by (metis list.set_intros(1) set_dropWhileD)
    moreover have "\<not> isdigit c" using Cons hd_dropWhile [of isdigit s] by simp
    ultimately have c: "c = CHR ''.''" using assms by (auto simp: digit_or_dot_def)
    have fps: "set fp \<subseteq> set s" using Cons by (metis set_dropWhileD set_subset_Cons subsetI subsetD)
    have fp: "list_all isdigit fp \<longleftrightarrow> count_list fp CHR ''.'' = 0"
    proof
      assume "list_all isdigit fp"
      then show "count_list fp CHR ''.'' = 0" using count_dot_digits [of fp] by (simp add: list_all_iff)
    next
      assume z: "count_list fp CHR ''.'' = 0"
      have "\<forall>x \<in> set fp. isdigit x"
      proof
        fix x assume x: "x \<in> set fp"
        then have "x \<noteq> CHR ''.''" using z by (metis count_list_0_iff)
        moreover have "digit_or_dot x" using x fps assms by auto
        ultimately show "isdigit x" by (simp add: digit_or_dot_def)
      qed
      then show "list_all isdigit fp" by (simp add: list_all_iff)
    qed
    have cnt': "count_list s CHR ''.'' = Suc (count_list fp CHR ''.'')" using cnt Cons c by simp
    have dig: "(\<exists>x \<in> set s. isdigit x) \<longleftrightarrow> ?ip \<noteq> [] \<or> (\<exists>x \<in> set fp. isdigit x)"
    proof -
      have "set s = set ?ip \<union> insert c (set fp)" using Cons by (subst s) simp
      then show ?thesis using ip c isdigit_not_dot by (cases ?ip) auto
    qed
    show ?thesis
    proof (cases "list_all isdigit fp")
      case True
      have "py_float s = (if c = CHR ''.'' \<and> list_all isdigit fp \<and> (?ip \<noteq> [] \<or> fp \<noteq> [])
          then Some (of_nat (digits_value ?ip) + of_nat (digits_value fp) / 10 ^ length fp)
          else None)"
        by (simp only: py_float_def Let_def Cons list.case)
      then have "py_float s = None \<longleftrightarrow> \<not> (?ip \<noteq> [] \<or> fp \<noteq> [])"
        using True c by simp
      moreover have "(\<exists>x \<in> set fp. isdigit x) \<longleftrightarrow> fp \<noteq> []"
        using True by (cases fp) (auto simp: list_all_iff)
      ultimately show ?thesis using dig fp True cnt' by auto
    next
      case False
      have "py_float s = (if c = CHR ''.'' \<and> list_all isdigit fp \<and> (?ip \<noteq> [] \<or> fp \<noteq> [])
          then Some (of_nat (digits_value ?ip) + of_nat (digits_value fp) / 10 ^ length fp)
          else None)"
        by (simp only: py_float_def Let_def Cons list.case)
      then have "py_float s = None" using False by simp
      moreover have "2 \<le> count_list s CHR ''.''" using False fp cnt' by simp
      ultimately show ?thesis by simp
    qed
  qed
qed

section \<open>The loop of the parser\<close>

lemma strip_prefix: "\<exists>t. dropWhile isspace s = strip s @ t"
proof -
  let ?d = "dropWhile isspace s"
  have "rev ?d = takeWhile isspace (rev ?d) @ dropWhile isspace (rev ?d)" by simp
  then have "?d = rev (dropWhile isspace (rev ?d)) @ rev (takeWhile isspace (rev ?d))"
    by (metis rev_append rev_rev_ident)
  then show ?thesis unfolding strip_def by blast
qed

lemma strip_hd_nonspace:
  assumes "strip l \<noteq> []"
  shows "nonspace (hd (strip l))"
proof -
  obtain t where t: "dropWhile isspace l = strip l @ t" using strip_prefix by blast
  with assms have ne: "dropWhile isspace l \<noteq> []" by simp
  then have "\<not> isspace (hd (dropWhile isspace l))" by (rule hd_dropWhile)
  moreover have "hd (dropWhile isspace l) = hd (strip l)" using t assms by simp
  ultimately show ?thesis by (simp add: nonspace_def)
qed

lemma name_token_nonempty: "strip l \<noteq> [] \<Longrightarrow> name_token (strip l) \<noteq> []"
  using strip_hd_nonspace [of l] by (cases "strip l") (auto simp: name_token_def)

lemma parse_line_skip: "\<not> data_line l \<Longrightarrow> parse_line n l = Inr None"
  by (auto simp: data_line_def parse_line_def)

lemma parse_line_data:
  assumes "data_line l"
  shows "\<exists>co. parse_line n l =
     (if factor_token (strip l) = [] then Inr (Some (name_token (strip l), None, co))
      else case py_float (factor_token (strip l)) of
             None \<Rightarrow> Inl (ValueError (factor_token (strip l)) n)
           | Some f \<Rightarrow> Inr (Some (name_token (strip l), Some f, co)))"
proof -
  obtain m where m: "re_match line_pattern (strip l) = Some m"
      "group m 1 = Some (name_token (strip l))" "group m 2 = Some (factor_token (strip l))"
    using line_pattern_groups by blast
  show ?thesis
    using assms m by (auto simp: parse_line_def data_line_def Let_def split: option.splits)
qed

lemma parse_line_eq:
  "parse_line n l =
     (if \<not> data_line l then Inr None
      else if factor_token (strip l) = []
        then Inr (Some (name_token (strip l), None, co_token (strip l)))
        else case py_float (factor_token (strip l)) of
               None \<Rightarrow> Inl (ValueError (factor_token (strip l)) n)
             | Some f \<Rightarrow> Inr (Some (name_token (strip l), Some f, co_token (strip l))))"
proof (cases "data_line l")
  case False
  then show ?thesis by (simp add: parse_line_skip)
next
  case True
  obtain m where m: "re_match line_pattern (strip l) = Some m"
      "group m 1 = Some (name_token (strip l))" "group m 2 = Some (factor_token (strip l))"
      "group m 3 = co_token (strip l)"
    using line_pattern_match by blast
  show ?thesis
    using True m by (auto simp: parse_line_def data_line_def Let_def split: option.splits)
qed

lemma parse_line_bad_factor:
  "bad_factor l \<Longrightarrow> parse_line n l = Inl (ValueError (factor_token (strip l)) n)"
  using parse_line_data [of l n] by (auto simp: bad_factor_def)

lemma parse_line_good:
  assumes "\<not> bad_factor l"
  shows "\<exists>r. parse_line n l = Inr r"
proof (cases "data_line l")
  case True
  then show ?thesis using parse_line_data [of l n] assms
    by (auto simp: bad_factor_def split: option.splits)
next
  case False
  then show ?thesis by (simp add: parse_line_skip)
qed

lemma parse_line_error:
  assumes "parse_line n l = Inl e"
  shows "bad_factor l \<and> e = ValueError (factor_token (strip l)) n"
proof -
  have "bad_factor l" using assms parse_line_good [of l n] by auto
  then show ?thesis using assms parse_line_bad_factor [of l n] by simp
qed

lemma parse_line_record:
  assumes "parse_line n l = Inr (Some t)"
  shows "data_line l \<and> fst t = name_token (strip l) \<and> fst t \<noteq> []"
proof -
  have d: "data_line l" using assms parse_line_skip [of l n] by auto
  then have "fst t = name_token (strip l)"
    using parse_line_data [of l n] assms by (auto split: if_splits option.splits)
  then show ?thesis using d name_token_nonempty [of l] by (simp add: data_line_def)
qed

lemma parse_line_number: "parse_line n l = Inr r \<Longrightarrow> parse_line k l = Inr r"
proof (cases "data_line l")
  case True
  assume a: "parse_line n l = Inr r"
  obtain m where m: "re_match line_pattern (strip l) = Some m"
      "group m 1 = Some (name_token (strip l))" "group m 2 = Some (factor_token (strip l))"
    using line_pattern_groups by blast
  show ?thesis using a m True
    by (auto simp: parse_line_def data_line_def Let_def split: option.splits if_splits)
next
  case False
  assume "parse_line n l = Inr r"
  then show ?thesis using False by (simp add: parse_line_skip)
qed

lemma parse_loop_state:
  "parse_loop n ls ts = (ts @ fst (parse_loop n ls []), snd (parse_loop n ls []))"
proof (induction ls arbitrary: n ts)
  case Nil
  then show ?case by simp
next
  case (Cons l ls)
  show ?case
  proof (cases "parse_line (n + 1) l")
    case (Inl e)
    then show ?thesis by simp
  next
    case (Inr r)
    show ?thesis
    proof (cases r)
      case None
      then show ?thesis using Inr Cons.IH [of "n + 1" ts] by simp
    next
      case (Some t)
      then show ?thesis
        using Inr Cons.IH [of "n + 1" "ts @ [t]"] Cons.IH [of "n + 1" "[t]"] by simp
    qed
  qed
qed

lemma parse_loop_append:
  "parse_loop n (xs @ ys) ts =
     (case parse_loop n xs ts of
        (ts', Some e) \<Rightarrow> (ts', Some e)
      | (ts', None) \<Rightarrow> parse_loop (n + length xs) ys ts')"
  by (induction xs arbitrary: n ts) (auto split: sum.splits option.splits)

lemma parse_line_None: "parse_line n l = Inr None \<Longrightarrow> \<not> data_line l"
  using parse_line_data [of l n] by (auto split: if_splits option.splits)

lemma parse_loop_no_error:
  "\<forall>x \<in> set ls. \<not> bad_factor x \<Longrightarrow> snd (parse_loop n ls ts) = None"
proof (induction ls arbitrary: n ts)
  case Nil
  then show ?case by simp
next
  case (Cons l ls)
  then obtain r where r: "parse_line (n + 1) l = Inr r"
    using parse_line_good [of l "n + 1"] by auto
  show ?case using Cons r by (cases r) simp_all
qed

lemma parse_loop_names:
  "\<forall>t \<in> set (fst (parse_loop n ls [])). fst t \<noteq> []"
proof (induction ls arbitrary: n)
  case Nil
  then show ?case by simp
next
  case (Cons l ls)
  show ?case
  proof (cases "parse_line (n + 1) l")
    case (Inl e)
    then show ?thesis by simp
  next
    case (Inr r)
    show ?thesis
    proof (cases r)
      case None
      then show ?thesis using Inr Cons.IH [of "n + 1"] by simp
    next
      case (Some t)
      have "fst t \<noteq> []" using Inr Some parse_line_record [of "n + 1" l t] by auto
      moreover have "fst (parse_loop (n + 1) ls [t]) = [t] @ fst (parse_loop (n + 1) ls [])"
        using parse_loop_state [of "n + 1" ls "[t]"] by simp
      ultimately show ?thesis using Inr Some Cons.IH [of "n + 1"] by simp
    qed
  qed
qed

lemma parse_loop_error:
  assumes "parse_loop n ls ts = (ts', Some e)"
  shows "\<exists>pre l post rs. ls = pre @ l # post \<and> parse_line (n + Suc (length pre)) l = Inl e
           \<and> parse_loop n pre [] = (rs, None) \<and> ts' = ts @ rs
           \<and> length rs = length (filter data_line pre)"
  using assms
proof (induction ls arbitrary: n ts)
  case Nil
  then show ?case by simp
next
  case (Cons l ls)
  show ?case
  proof (cases "parse_line (n + 1) l")
    case (Inl e')
    with Cons.prems have "e' = e" "ts' = ts" by simp_all
    then have "l # ls = [] @ l # ls \<and> parse_line (n + Suc (length ([]::string list))) l = Inl e
        \<and> parse_loop n [] [] = ([], None) \<and> ts' = ts @ []
        \<and> length ([]::transporter list) = length (filter data_line [])"
      using Inl by simp
    then show ?thesis by blast
  next
    case (Inr r)
    show ?thesis
    proof (cases r)
      case None
      with Inr Cons.prems have "parse_loop (n + 1) ls ts = (ts', Some e)" by simp
      from Cons.IH [OF this] obtain pre l' post rs where
        h: "ls = pre @ l' # post" "parse_line (n + 1 + Suc (length pre)) l' = Inl e"
           "parse_loop (n + 1) pre [] = (rs, None)" "ts' = ts @ rs"
           "length rs = length (filter data_line pre)"
        by blast
      have nd: "\<not> data_line l" using Inr None parse_line_None by simp
      have "l # ls = (l # pre) @ l' # post \<and> parse_line (n + Suc (length (l # pre))) l' = Inl e
        \<and> parse_loop n (l # pre) [] = (rs, None) \<and> ts' = ts @ rs
        \<and> length rs = length (filter data_line (l # pre))"
        using h nd Inr None by simp
      then show ?thesis by blast
    next
      case (Some t)
      with Inr Cons.prems have "parse_loop (n + 1) ls (ts @ [t]) = (ts', Some e)" by simp
      from Cons.IH [OF this] obtain pre l' post rs where
        h: "ls = pre @ l' # post" "parse_line (n + 1 + Suc (length pre)) l' = Inl e"
           "parse_loop (n + 1) pre [] = (rs, None)" "ts' = (ts @ [t]) @ rs"
           "length rs = length (filter data_line pre)"
        by blast
      have d: "data_line l" using Inr Some parse_line_record [of "n + 1" l t] by auto
      have "parse_loop (n + 1) pre [t] = ([t] @ rs, None)"
        using parse_loop_state [of "n + 1" pre "[t]"] h(3) by simp
      then have "l # ls = (l # pre) @ l' # post \<and> parse_line (n + Suc (length (l # pre))) l' = Inl e
        \<and> parse_loop n (l # pre) [] = (t # rs, None) \<and> ts' = ts @ (t # rs)
        \<and> length (t # rs) = length (filter data_line (l # pre))"
        using h d Inr Some by simp
      then show ?thesis by blast
    qed
  qed
qed

lemma parse_loop_error_kind:
  assumes "parse_loop n ls ts = (ts', Some e)"
  shows "\<exists>tok k. e = ValueError tok k \<and> n < k \<and> k \<le> n + length ls"
proof -
  from parse_loop_error [OF assms] obtain pre l post where
    h: "ls = pre @ l # post" "parse_line (n + Suc (length pre)) l = Inl e" by blast
  from parse_line_error [OF h(2)] have "e = ValueError (factor_token (strip l)) (n + Suc (length pre))"
    by simp
  then show ?thesis using h(1) by simp
qed

lemma parse_eq:
  "parse st ls = (fst (parse_loop 0 ls st),
      case snd (parse_loop 0 ls st) of Some e \<Rightarrow> Inl e | None \<Rightarrow> Inr (fst (parse_loop 0 ls st)))"
  by (simp add: parse_def split: prod.splits option.splits)

section \<open>Properties of the parser\<close>

text \<open>
  Claim C3. When a line that is neither blank nor a comment carries a non-empty factor
  token that \<open>float\<close> rejects, and no earlier line does, \<open>parse\<close> raises the
  ValueError with that token and with the 1-based number of that line, blank and
  comment lines counted.
\<close>

theorem parse_bad_factor_error:
  assumes "\<forall>x \<in> set pre. \<not> bad_factor x" and "bad_factor l"
  shows "snd (parse st (pre @ l # post)) =
           Inl (ValueError (factor_token (strip l)) (Suc (length pre)))"
proof -
  obtain ts where ts: "parse_loop 0 pre st = (ts, None)"
    using parse_loop_no_error [OF assms(1), of 0 st] by (cases "parse_loop 0 pre st") auto
  have "parse_loop 0 (pre @ l # post) st = parse_loop (length pre) (l # post) ts"
    using ts by (simp add: parse_loop_append)
  also have "\<dots> = (ts, Some (ValueError (factor_token (strip l)) (Suc (length pre))))"
    using parse_line_bad_factor [OF assms(2), of "Suc (length pre)"] by simp
  finally show ?thesis by (simp add: parse_def)
qed

theorem parse_bad_factor_error_witness:
  "\<not> bad_factor ''# sources'' \<and> \<not> bad_factor '''' \<and> bad_factor ''trans_c_glu 1.2.3''
   \<and> snd (parse [] ([''# sources'', ''''] @ ''trans_c_glu 1.2.3'' # [''trans_n_nh3''])) =
        Inl (ValueError ''1.2.3'' 3)"
proof -
  have a1: "\<not> bad_factor ''# sources''" by code_simp
  have a2: "\<not> bad_factor ''''" by code_simp
  have a: "\<forall>x \<in> set [''# sources'', '''']. \<not> bad_factor x" using a1 a2 by simp
  have b: "bad_factor ''trans_c_glu 1.2.3''" by code_simp
  have c: "factor_token (strip ''trans_c_glu 1.2.3'') = ''1.2.3''" by code_simp
  show ?thesis
    using parse_bad_factor_error [OF a b, of "[]" "[''trans_n_nh3'']"] a1 a2 b c by simp
qed

text \<open>
  Claim C6. \<open>parse\<close> is additive. If the two files give \<open>r1\<close> and \<open>r2\<close> on a
  fresh instance, then from any list \<open>st\<close> the first call leaves and returns
  \<open>st @ r1\<close> and the second call leaves and returns \<open>st @ r1 @ r2\<close>: the two
  calls add the concatenation of their own results, and each returns the whole list,
  the records of earlier calls included.
\<close>

theorem parse_additive:
  assumes "parse [] lines1 = (r1, Inr r1)" and "parse [] lines2 = (r2, Inr r2)"
  shows "parse st lines1 = (st @ r1, Inr (st @ r1)) \<and>
         parse (st @ r1) lines2 = (st @ r1 @ r2, Inr (st @ r1 @ r2))"
proof -
  have 1: "parse_loop 0 lines1 [] = (r1, None)"
    using assms(1) by (auto simp: parse_def split: prod.splits option.splits)
  have 2: "parse_loop 0 lines2 [] = (r2, None)"
    using assms(2) by (auto simp: parse_def split: prod.splits option.splits)
  have "parse_loop 0 lines1 st = (st @ r1, None)"
    using parse_loop_state [of 0 lines1 st] 1 by simp
  moreover have "parse_loop 0 lines2 (st @ r1) = ((st @ r1) @ r2, None)"
    using parse_loop_state [of 0 lines2 "st @ r1"] 2 by simp
  ultimately show ?thesis by (simp add: parse_def)
qed

theorem parse_additive_witness:
  "parse [] [''# c'', ''trans_c_glu 1.5 co(trans_n_nh3)''] =
     ([(''trans_c_glu'', Some (3 / 2), Some ''trans_n_nh3'')],
      Inr [(''trans_c_glu'', Some (3 / 2), Some ''trans_n_nh3'')])
   \<and> parse [] [''trans_n_nh3''] = ([(''trans_n_nh3'', None, None)], Inr [(''trans_n_nh3'', None, None)])
   \<and> parse [(''a_b_c'', None, None)] [''# c'', ''trans_c_glu 1.5 co(trans_n_nh3)''] =
       ([(''a_b_c'', None, None), (''trans_c_glu'', Some (3 / 2), Some ''trans_n_nh3'')],
        Inr [(''a_b_c'', None, None), (''trans_c_glu'', Some (3 / 2), Some ''trans_n_nh3'')])
   \<and> parse [(''a_b_c'', None, None), (''trans_c_glu'', Some (3 / 2), Some ''trans_n_nh3'')]
        [''trans_n_nh3''] =
       ([(''a_b_c'', None, None), (''trans_c_glu'', Some (3 / 2), Some ''trans_n_nh3''),
         (''trans_n_nh3'', None, None)],
        Inr [(''a_b_c'', None, None), (''trans_c_glu'', Some (3 / 2), Some ''trans_n_nh3''),
         (''trans_n_nh3'', None, None)])"
proof -
  have a: "parse [] [''# c'', ''trans_c_glu 1.5 co(trans_n_nh3)''] =
     ([(''trans_c_glu'', Some (3 / 2), Some ''trans_n_nh3'')],
      Inr [(''trans_c_glu'', Some (3 / 2), Some ''trans_n_nh3'')])" by code_simp
  have b: "parse [] [''trans_n_nh3''] =
     ([(''trans_n_nh3'', None, None)], Inr [(''trans_n_nh3'', None, None)])" by code_simp
  show ?thesis using parse_additive [OF a b, of "[(''a_b_c'', None, None)]"] a b by simp
qed

text \<open>
  Claim C7. When \<open>parse\<close> raises, the list is not rolled back: it is the list before
  the call followed by the records of the lines before the failing line, which all
  parse, one record for each line that is neither blank nor a comment; the failing
  line adds nothing.
\<close>

theorem parse_failure_keeps_records:
  assumes "parse st ls = (st', Inl e)"
  shows "\<exists>pre l post rs. ls = pre @ l # post \<and> parse_line (Suc (length pre)) l = Inl e
           \<and> parse [] pre = (rs, Inr rs) \<and> st' = st @ rs
           \<and> length rs = length (filter data_line pre)"
proof -
  have "parse_loop 0 ls st = (st', Some e)"
    using assms by (auto simp: parse_def split: prod.splits option.splits)
  from parse_loop_error [OF this] obtain pre l post rs where
    h: "ls = pre @ l # post" "parse_line (0 + Suc (length pre)) l = Inl e"
       "parse_loop 0 pre [] = (rs, None)" "st' = st @ rs"
       "length rs = length (filter data_line pre)"
    by blast
  have "parse [] pre = (rs, Inr rs)" using h(3) by (simp add: parse_def)
  then show ?thesis using h by auto
qed

theorem parse_failure_keeps_records_witness:
  "parse [(''a_b_c'', None, None)] [''# c'', ''trans_c_glu 1.5'', ''trans_n_nh3 1..2'', ''x_y_z''] =
     ([(''a_b_c'', None, None), (''trans_c_glu'', Some (3 / 2), None)], Inl (ValueError ''1..2'' 3))
   \<and> (\<exists>pre l post rs. [''# c'', ''trans_c_glu 1.5'', ''trans_n_nh3 1..2'', ''x_y_z''] = pre @ l # post
         \<and> parse_line (Suc (length pre)) l = Inl (ValueError ''1..2'' 3)
         \<and> parse [] pre = (rs, Inr rs)
         \<and> [(''a_b_c'', None, None), (''trans_c_glu'', Some (3 / 2), None)] = [(''a_b_c'', None, None)] @ rs
         \<and> length rs = length (filter data_line pre))"
proof -
  have a: "parse [(''a_b_c'', None, None)] [''# c'', ''trans_c_glu 1.5'', ''trans_n_nh3 1..2'', ''x_y_z''] =
     ([(''a_b_c'', None, None), (''trans_c_glu'', Some (3 / 2), None)], Inl (ValueError ''1..2'' 3))"
    by code_simp
  show ?thesis using parse_failure_keeps_records [OF a] a by simp
qed

text \<open>
  Claim C8. The line pattern matches every string, so \<open>parse\<close> never raises the
  SyntaxError: a line that is neither blank nor a comment gives a record or the
  ValueError of the conversion. Text that the pattern leaves over is ignored: the
  outcome of a line depends on its name token, factor token and cotransporter token
  alone, and on \<open>trans_c_glu abc\<close> the match stops before \<open>abc\<close> and the record has
  neither a factor nor a cotransporter.
\<close>

theorem parse_never_syntax_error:
  "re_match line_pattern s \<noteq> None
   \<and> snd (parse st ls) \<noteq> Inl (SyntaxError_line n)
   \<and> (data_line l \<longrightarrow>
        (\<exists>t. parse_line n l = Inr (Some t)) \<or> (\<exists>tok. parse_line n l = Inl (ValueError tok n)))
   \<and> (data_line l \<and> data_line l' \<and> name_token (strip l) = name_token (strip l')
        \<and> factor_token (strip l) = factor_token (strip l')
        \<and> co_token (strip l) = co_token (strip l') \<longrightarrow> parse_line n l = parse_line n l')
   \<and> map_option fst (re_match line_pattern ''trans_c_glu abc'') = Some ''abc''
   \<and> parse [] [''trans_c_glu abc''] =
        ([(''trans_c_glu'', None, None)], Inr [(''trans_c_glu'', None, None)])"
proof -
  have 1: "re_match line_pattern s \<noteq> None" using line_pattern_groups [of s] by auto
  have 2: "snd (parse st ls) \<noteq> Inl (SyntaxError_line n)"
  proof (cases "parse_loop 0 ls st")
    case (Pair ts r)
    show ?thesis
    proof (cases r)
      case None
      then show ?thesis using Pair by (simp add: parse_def)
    next
      case (Some e)
      then obtain tok k where "e = ValueError tok k"
        using parse_loop_error_kind [of 0 ls st ts e] Pair by auto
      then show ?thesis using Pair Some by (simp add: parse_def)
    qed
  qed
  have 3: "data_line l \<longrightarrow>
        (\<exists>t. parse_line n l = Inr (Some t)) \<or> (\<exists>tok. parse_line n l = Inl (ValueError tok n))"
  proof
    assume d: "data_line l"
    show "(\<exists>t. parse_line n l = Inr (Some t)) \<or> (\<exists>tok. parse_line n l = Inl (ValueError tok n))"
    proof (cases "parse_line n l")
      case (Inl e)
      then show ?thesis using parse_line_error [of n l e] by simp
    next
      case (Inr r)
      then show ?thesis using d parse_line_None [of n l] by (cases r) auto
    qed
  qed
  have 4: "data_line l \<and> data_line l' \<and> name_token (strip l) = name_token (strip l')
        \<and> factor_token (strip l) = factor_token (strip l')
        \<and> co_token (strip l) = co_token (strip l') \<longrightarrow> parse_line n l = parse_line n l'"
    by (auto simp: parse_line_eq split: option.splits)
  have 5: "map_option fst (re_match line_pattern ''trans_c_glu abc'') = Some ''abc''"
    by code_simp
  have 6: "parse [] [''trans_c_glu abc''] =
        ([(''trans_c_glu'', None, None)], Inr [(''trans_c_glu'', None, None)])"
    by code_simp
  show ?thesis using 1 2 3 4 5 6 by blast
qed

theorem parse_never_syntax_error_witness:
  "data_line ''trans_c_glu abc'' \<and> data_line ''trans_c_glu''
   \<and> name_token (strip ''trans_c_glu abc'') = name_token (strip ''trans_c_glu'')
   \<and> factor_token (strip ''trans_c_glu abc'') = factor_token (strip ''trans_c_glu'')
   \<and> co_token (strip ''trans_c_glu abc'') = co_token (strip ''trans_c_glu'')
   \<and> parse_line 1 ''trans_c_glu abc'' = parse_line 1 ''trans_c_glu''
   \<and> re_match line_pattern ''trans_c_glu 1.5 extra co(x'' \<noteq> None
   \<and> snd (parse [] [''trans_c_glu 1.5 extra co(x'', ''a b c d'']) \<noteq> Inl (SyntaxError_line 1)
   \<and> ((\<exists>t. parse_line 1 ''trans_c_glu abc'' = Inr (Some t))
     \<or> (\<exists>tok. parse_line 1 ''trans_c_glu abc'' = Inl (ValueError tok 1)))"
proof -
  have d: "data_line ''trans_c_glu abc''" "data_line ''trans_c_glu''" by code_simp+
  have t: "name_token (strip ''trans_c_glu abc'') = name_token (strip ''trans_c_glu'')"
    "factor_token (strip ''trans_c_glu abc'') = factor_token (strip ''trans_c_glu'')"
    "co_token (strip ''trans_c_glu abc'') = co_token (strip ''trans_c_glu'')"
    by code_simp+
  show ?thesis
    using parse_never_syntax_error [of "''trans_c_glu 1.5 extra co(x''" "[]"
        "[''trans_c_glu 1.5 extra co(x'', ''a b c d'']" 1 "''trans_c_glu abc''" "''trans_c_glu''"]
      d t
    by blast
qed

text \<open>
  Claim C9. Every record that \<open>parse\<close> appends has a non-empty name.
\<close>

theorem parse_names_nonempty:
  "\<exists>new. fst (parse st ls) = st @ new \<and> (\<forall>t \<in> set new. fst t \<noteq> [])"
proof -
  have "fst (parse st ls) = st @ fst (parse_loop 0 ls [])"
    using parse_loop_state [of 0 ls st] by (simp add: parse_eq)
  then show ?thesis using parse_loop_names [of 0 ls] by blast
qed

theorem parse_names_nonempty_witness:
  "fst (parse [] [''  x_c_y 2 '', ''# c'', ''1.5 co(a)'']) = [(''x_c_y'', Some 2, None), (''1.5'', None, Some ''a'')]
   \<and> (\<exists>new. fst (parse [] [''  x_c_y 2 '', ''# c'', ''1.5 co(a)'']) = [] @ new \<and> (\<forall>t \<in> set new. fst t \<noteq> []))"
proof -
  have a: "fst (parse [] [''  x_c_y 2 '', ''# c'', ''1.5 co(a)'']) =
      [(''x_c_y'', Some 2, None), (''1.5'', None, Some ''a'')]" by code_simp
  show ?thesis using parse_names_nonempty [of "[]" "[''  x_c_y 2 '', ''# c'', ''1.5 co(a)'']"] a
    by simp
qed

section \<open>The loop of the splitting\<close>

lemma first_seen_snoc:
  "first_seen (xs @ [y]) = (if y \<in> set xs then first_seen xs else first_seen xs @ [y])"
  by (induction xs) auto

lemma set_first_seen: "set (first_seen xs) = set xs"
  by (induction xs) auto

lemma distinct_first_seen: "distinct (first_seen xs)"
  by (induction xs) (auto simp: distinct_removeAll)

lemma length_groups_in_order: "length (groups_in_order es) = length (first_seen (map fst es))"
  by (simp add: groups_in_order_def)

lemma groups_in_order_snoc_new:
  assumes "fst x \<notin> fst ` set es"
  shows "groups_in_order (es @ [x]) = groups_in_order es @ [[x]]"
proof -
  have 1: "first_seen (map fst (es @ [x])) = first_seen (map fst es) @ [fst x]"
    using assms by (simp add: first_seen_snoc)
  have "\<forall>e \<in> set es. fst e \<noteq> fst x" using assms by (metis imageI)
  then have 2: "filter (\<lambda>e. fst e = fst x) es = []"
    by (simp add: filter_empty_conv)
  have 3: "map (\<lambda>t. filter (\<lambda>e. fst e = t) (es @ [x])) (first_seen (map fst es)) =
           map (\<lambda>t. filter (\<lambda>e. fst e = t) es) (first_seen (map fst es))"
    using assms by (intro map_cong) (auto simp: set_first_seen)
  show ?thesis unfolding groups_in_order_def 1 using 2 3 by simp
qed

lemma groups_in_order_snoc_old:
  assumes "i < length (first_seen (map fst es))" and "first_seen (map fst es) ! i = fst x"
  shows "groups_in_order (es @ [x]) = (groups_in_order es)[i := groups_in_order es ! i @ [x]]"
proof -
  let ?ks = "first_seen (map fst es)"
  have "fst x \<in> set ?ks" using assms nth_mem by metis
  then have 1: "first_seen (map fst (es @ [x])) = ?ks"
    by (simp add: first_seen_snoc set_first_seen)
  have d: "distinct ?ks" by (rule distinct_first_seen)
  show ?thesis
  proof (rule nth_equalityI)
    show "length (groups_in_order (es @ [x])) =
          length ((groups_in_order es)[i := groups_in_order es ! i @ [x]])"
      using 1 by (simp add: groups_in_order_def)
  next
    fix j assume "j < length (groups_in_order (es @ [x]))"
    then have j: "j < length ?ks" using 1 by (simp add: groups_in_order_def)
    have "?ks ! j = fst x \<longleftrightarrow> j = i"
      using d j assms by (metis nth_eq_iff_index_eq)
    then show "groups_in_order (es @ [x]) ! j =
          (groups_in_order es)[i := groups_in_order es ! i @ [x]] ! j"
      using j assms 1 by (auto simp: groups_in_order_def nth_list_update)
  qed
qed

lemma name_type_None: "re_match name_pattern s = None \<longleftrightarrow> name_type s = None"
  by (simp add: name_type_eq re_match_name_pattern(1))

lemma name_type_Some:
  "re_match name_pattern s = Some m \<Longrightarrow> \<exists>t. group m 1 = Some t \<and> name_type s = Some t"
  using name_type_None [of s] by (auto simp: name_type_def)

lemma split_loop_Cons_fail:
  "re_match name_pattern (fst entry) = None \<Longrightarrow>
     split_loop (entry # l) d lol = Inl (SyntaxError_name (fst entry))"
  by simp

lemma split_loop_Cons_new:
  "re_match name_pattern (fst entry) = Some m \<Longrightarrow> group m 1 = Some tc \<Longrightarrow> d tc = None \<Longrightarrow>
     split_loop (entry # l) d lol = split_loop l (d(tc \<mapsto> length lol)) (lol @ [[(tc, entry)]])"
  by simp

lemma split_loop_Cons_old:
  "re_match name_pattern (fst entry) = Some m \<Longrightarrow> group m 1 = Some tc \<Longrightarrow> d tc = Some i \<Longrightarrow>
     i < length lol \<Longrightarrow>
     split_loop (entry # l) d lol = split_loop l d (lol[i := lol ! i @ [(tc, entry)]])"
  by simp

lemma split_loop_groups:
  assumes "\<forall>t i. d t = Some i \<longleftrightarrow>
             (i < length (first_seen (map fst es)) \<and> first_seen (map fst es) ! i = t)"
  shows "split_loop l d (groups_in_order es) =
     (case find (\<lambda>e. name_type (fst e) = None) l of
        Some e \<Rightarrow> Inl (SyntaxError_name (fst e))
      | None \<Rightarrow> Inr (groups_in_order (es @ map typed l)))"
  using assms
proof (induction l arbitrary: d es)
  case Nil
  show ?case by simp
next
  case (Cons entry l)
  let ?ks = "first_seen (map fst es)"
  let ?P = "\<lambda>e::transporter. name_type (fst e) = None"
  show ?case
  proof (cases "re_match name_pattern (fst entry)")
    case None
    then have "name_type (fst entry) = None" by (simp only: name_type_None)
    then have "find ?P (entry # l) = Some entry" by simp
    then show ?thesis using split_loop_Cons_fail [OF None] by (simp del: split_loop.simps)
  next
    case (Some m)
    then obtain tc where tc: "group m 1 = Some tc" "name_type (fst entry) = Some tc"
      using name_type_Some by blast
    have ty: "typed entry = (tc, entry)" using tc(2) by (simp add: typed_def)
    have f: "find ?P (entry # l) = find ?P l" using tc(2) by simp
    have m: "es @ map typed (entry # l) = (es @ [(tc, entry)]) @ map typed l"
      using ty by simp
    show ?thesis
    proof (cases "d tc")
      case None
      have notin: "tc \<notin> set ?ks"
      proof
        assume "tc \<in> set ?ks"
        then obtain j where "j < length ?ks" "?ks ! j = tc" by (auto simp: in_set_conv_nth)
        then have "d tc = Some j" using Cons.prems by blast
        then show False using None by simp
      qed
      then have new: "fst (tc, entry) \<notin> fst ` set es" by (simp add: set_first_seen)
      have g: "groups_in_order es @ [[(tc, entry)]] = groups_in_order (es @ [(tc, entry)])"
        using groups_in_order_snoc_new [OF new] by simp
      have ks': "first_seen (map fst (es @ [(tc, entry)])) = ?ks @ [tc]"
        using notin by (simp add: first_seen_snoc set_first_seen)
      have ne: "\<And>j. j < length ?ks \<Longrightarrow> ?ks ! j \<noteq> tc"
      proof -
        fix j assume "j < length ?ks"
        then have "?ks ! j \<in> set ?ks" by (rule nth_mem)
        then show "?ks ! j \<noteq> tc" using notin by auto
      qed
      have inv: "\<forall>t i. (d(tc \<mapsto> length (groups_in_order es))) t = Some i \<longleftrightarrow>
          (i < length (?ks @ [tc]) \<and> (?ks @ [tc]) ! i = t)"
      proof (intro allI)
        fix t i
        show "(d(tc \<mapsto> length (groups_in_order es))) t = Some i \<longleftrightarrow>
          (i < length (?ks @ [tc]) \<and> (?ks @ [tc]) ! i = t)"
        proof (cases "t = tc")
          case True
          show ?thesis
          proof (cases "i < length ?ks")
            case True
            then show ?thesis using ne [OF True] \<open>t = tc\<close>
              by (simp add: length_groups_in_order nth_append)
          next
            case False
            then show ?thesis using \<open>t = tc\<close>
              by (auto simp: length_groups_in_order nth_append)
          qed
        next
          case False
          have "d t = Some i \<longleftrightarrow> (i < length ?ks \<and> ?ks ! i = t)" using Cons.prems by blast
          then show ?thesis using False by (auto simp: nth_append)
        qed
      qed
      have inv': "\<forall>t i. (d(tc \<mapsto> length (groups_in_order es))) t = Some i \<longleftrightarrow>
          (i < length (first_seen (map fst (es @ [(tc, entry)])))
            \<and> first_seen (map fst (es @ [(tc, entry)])) ! i = t)"
        unfolding ks' by (rule inv)
      have "split_loop (entry # l) d (groups_in_order es) =
            split_loop l (d(tc \<mapsto> length (groups_in_order es)))
              (groups_in_order es @ [[(tc, entry)]])"
        by (rule split_loop_Cons_new [where d = d, OF Some tc(1) None])
      also have "\<dots> = split_loop l (d(tc \<mapsto> length (groups_in_order es)))
              (groups_in_order (es @ [(tc, entry)]))"
        by (simp only: g)
      also have "\<dots> = (case find ?P l of
            Some e \<Rightarrow> Inl (SyntaxError_name (fst e))
          | None \<Rightarrow> Inr (groups_in_order ((es @ [(tc, entry)]) @ map typed l)))"
        by (rule Cons.IH [OF inv'])
      finally show ?thesis by (simp only: f m)
    next
      case (Some i)
      have "d tc = Some i \<longleftrightarrow> (i < length ?ks \<and> ?ks ! i = tc)" using Cons.prems by blast
      then have i: "i < length ?ks" "?ks ! i = tc" using Some by simp_all
      have g: "(groups_in_order es)[i := groups_in_order es ! i @ [(tc, entry)]] =
               groups_in_order (es @ [(tc, entry)])"
        using groups_in_order_snoc_old [of i es "(tc, entry)"] i by simp
      have "?ks ! i \<in> set ?ks" using i(1) by (rule nth_mem)
      then have "tc \<in> set (map fst es)" using i(2) by (simp only: set_first_seen)
      then have ks': "first_seen (map fst (es @ [(tc, entry)])) = ?ks"
        by (simp add: first_seen_snoc)
      have il: "i < length (groups_in_order es)" using i(1) by (simp only: length_groups_in_order)
      have inv': "\<forall>t i. d t = Some i \<longleftrightarrow>
          (i < length (first_seen (map fst (es @ [(tc, entry)])))
            \<and> first_seen (map fst (es @ [(tc, entry)])) ! i = t)"
        unfolding ks' by (rule Cons.prems)
      have "split_loop (entry # l) d (groups_in_order es) =
            split_loop l d ((groups_in_order es)[i := groups_in_order es ! i @ [(tc, entry)]])"
        by (rule split_loop_Cons_old [where d = d, OF \<open>re_match name_pattern (fst entry) = Some m\<close> tc(1) Some il])
      also have "\<dots> = split_loop l d (groups_in_order (es @ [(tc, entry)]))"
        by (simp only: g)
      also have "\<dots> = (case find ?P l of
            Some e \<Rightarrow> Inl (SyntaxError_name (fst e))
          | None \<Rightarrow> Inr (groups_in_order ((es @ [(tc, entry)]) @ map typed l)))"
        by (rule Cons.IH [OF inv'])
      finally show ?thesis by (simp only: f m)
    qed
  qed
qed

lemma split_by_type_eq:
  "split_by_type st arg =
     (case find (\<lambda>e. name_type (fst e) = None) (case arg of None \<Rightarrow> st | Some l' \<Rightarrow> l') of
        Some e \<Rightarrow> Inl (SyntaxError_name (fst e))
      | None \<Rightarrow> Inr (groups_in_order (map typed (case arg of None \<Rightarrow> st | Some l' \<Rightarrow> l'))))"
proof -
  have e: "groups_in_order [] = []" by (simp add: groups_in_order_def)
  have "\<forall>t i. Map.empty t = Some i \<longleftrightarrow>
      (i < length (first_seen (map fst ([]::typed_transporter list)))
         \<and> first_seen (map fst ([]::typed_transporter list)) ! i = t)"
    by simp
  from split_loop_groups [OF this, of "case arg of None \<Rightarrow> st | Some l' \<Rightarrow> l'"]
  show ?thesis unfolding split_by_type_def e by (simp only: append_Nil)
qed

lemma mset_concat_update:
  "i < length xs \<Longrightarrow> mset (concat (xs[i := xs ! i @ ys])) = mset (concat xs) + mset ys"
proof (induction xs arbitrary: i)
  case Nil
  then show ?case by simp
next
  case (Cons x xs)
  then show ?case by (cases i) simp_all
qed

lemma mset_concat_groups: "mset (concat (groups_in_order es)) = mset es"
proof (induction es rule: rev_induct)
  case Nil
  then show ?case by (simp add: groups_in_order_def)
next
  case (snoc x es)
  let ?ks = "first_seen (map fst es)"
  show ?case
  proof (cases "fst x \<in> fst ` set es")
    case False
    then show ?thesis using snoc by (simp add: groups_in_order_snoc_new)
  next
    case True
    then have "fst x \<in> set ?ks" by (simp add: set_first_seen)
    then obtain i where i: "i < length ?ks" "?ks ! i = fst x" by (auto simp: in_set_conv_nth)
    have "i < length (groups_in_order es)" using i(1) by (simp add: length_groups_in_order)
    then show ?thesis
      using snoc groups_in_order_snoc_old [OF i] by (simp add: mset_concat_update)
  qed
qed

lemma groups_in_order_members:
  assumes "g \<in> set (groups_in_order es)" and "x \<in> set g"
  shows "x \<in> set es \<and> (\<forall>y \<in> set g. fst y = fst x)"
proof -
  from assms(1) obtain t where "g = filter (\<lambda>e. fst e = t) es"
    by (auto simp: groups_in_order_def)
  then show ?thesis using assms(2) by auto
qed

lemma find_None_all: "find P xs = None \<longleftrightarrow> (\<forall>x \<in> set xs. \<not> P x)"
  by (induction xs) auto

lemma find_first:
  "\<forall>x \<in> set pre. \<not> P x \<Longrightarrow> P e \<Longrightarrow> find P (pre @ e # post) = Some e"
  by (induction pre) auto

lemma count_underscore:
  "count_list s CHR ''_'' =
     (case dropWhile not_underscore s of [] \<Rightarrow> 0 | x # r \<Rightarrow> Suc (count_list r CHR ''_''))"
  by (induction s) (auto simp: not_underscore_def)

lemma type_code_None: "type_code s = None \<longleftrightarrow> count_list s CHR ''_'' < 2"
proof (cases "dropWhile not_underscore s")
  case Nil
  have "count_list s CHR ''_'' = 0" using count_underscore [of s] by (simp only: Nil list.case)
  moreover have "type_code s = None" by (simp only: type_code_def Nil list.case)
  ultimately show ?thesis by simp
next
  case (Cons x r)
  have c: "count_list s CHR ''_'' = Suc (count_list r CHR ''_'')"
    using count_underscore [of s] by (simp only: Cons list.case)
  show ?thesis
  proof (cases "dropWhile not_underscore r")
    case Nil
    have "count_list r CHR ''_'' = 0" using count_underscore [of r] by (simp only: Nil list.case)
    moreover have "type_code s = None" by (simp only: type_code_def Cons Nil list.case)
    ultimately show ?thesis using c by simp
  next
    case (Cons y r')
    have "count_list r CHR ''_'' = Suc (count_list r' CHR ''_'')"
      using count_underscore [of r] by (simp only: Cons list.case)
    moreover have "type_code s = Some (takeWhile not_underscore r)"
      by (simp only: type_code_def \<open>dropWhile not_underscore s = x # r\<close> Cons list.case)
    ultimately show ?thesis using c by simp
  qed
qed

lemma type_code_between:
  assumes "CHR ''_'' \<notin> set a" and "CHR ''_'' \<notin> set t"
  shows "type_code (a @ CHR ''_'' # t @ CHR ''_'' # r) = Some t"
proof -
  have a: "\<forall>x \<in> set a. not_underscore x" using assms(1) by (auto simp: not_underscore_def)
  have t: "\<forall>x \<in> set t. not_underscore x" using assms(2) by (auto simp: not_underscore_def)
  have 1: "dropWhile not_underscore (a @ CHR ''_'' # t @ CHR ''_'' # r) = CHR ''_'' # t @ CHR ''_'' # r"
    using a by (simp add: dropWhile_append3 not_underscore_def)
  have 2: "dropWhile not_underscore (t @ CHR ''_'' # r) = CHR ''_'' # r"
    using t by (simp add: dropWhile_append3 not_underscore_def)
  have 3: "takeWhile not_underscore (t @ CHR ''_'' # r) = t"
    using t by (simp add: takeWhile_tail not_underscore_def)
  show ?thesis unfolding type_code_def 1 using 2 3 by simp
qed

section \<open>Properties of the splitting\<close>

text \<open>
  Claim C1. \<open>split_by_type\<close> keeps the order. When every name has a type code, the
  groups stand in the order in which their type codes first occur in the input, and each
  group holds the records of its type code in input order: a record with a new type
  code opens a group at the end, a record with a known one joins the end of its group.
  The input A (type X), B (type Y), C (type X) gives the groups A, C and B.
\<close>

theorem split_by_type_order:
  assumes "l = (case arg of None \<Rightarrow> st | Some l' \<Rightarrow> l')"
    and "\<forall>e \<in> set l. name_type (fst e) \<noteq> None"
  shows "split_by_type st arg =
           Inr (map (\<lambda>t. filter (\<lambda>e. fst e = t) (map typed l)) (first_seen (map fst (map typed l))))"
proof -
  have "find (\<lambda>e. name_type (fst e) = None) l = None"
    using assms(2) by (simp add: find_None_all)
  then show ?thesis
    unfolding split_by_type_eq assms(1) [symmetric] by (simp add: groups_in_order_def)
qed

theorem split_by_type_order_witness:
  "split_by_type [] (Some [(''a_X_1'', None, None), (''b_Y_'', Some 2, None), (''c_X_2'', None, Some ''a_X_1'')]) =
     Inr [[(''X'', ''a_X_1'', None, None), (''X'', ''c_X_2'', None, Some ''a_X_1'')],
          [(''Y'', ''b_Y_'', Some 2, None)]]"
proof -
  let ?l = "[(''a_X_1'', None, None), (''b_Y_'', Some 2, None), (''c_X_2'', None, Some ''a_X_1'')] :: transporter list"
  have n: "name_type ''a_X_1'' = Some ''X''" "name_type ''b_Y_'' = Some ''Y''"
    "name_type ''c_X_2'' = Some ''X''" by code_simp+
  have a: "\<forall>e \<in> set ?l. name_type (fst e) \<noteq> None" using n by simp
  have b: "?l = (case Some ?l of None \<Rightarrow> [] | Some l' \<Rightarrow> l')" by simp
  show ?thesis using split_by_type_order [OF b a] n by (simp add: typed_def)
qed

text \<open>
  Claim C2. When \<open>split_by_type\<close> succeeds, the records of the groups, without their
  type codes, are the input records, each as often as the input has it; the type code
  in front of a record is the one the name pattern finds in its name; the records of one
  group have the same type code.
\<close>

theorem split_by_type_keeps_records:
  assumes "split_by_type st arg = Inr gs"
    and "l = (case arg of None \<Rightarrow> st | Some l' \<Rightarrow> l')"
  shows "mset (map snd (concat gs)) = mset l
       \<and> (\<forall>g \<in> set gs. \<forall>x \<in> set g. name_type (fst (snd x)) = Some (fst x))
       \<and> (\<forall>g \<in> set gs. \<forall>x \<in> set g. \<forall>y \<in> set g. fst x = fst y)"
proof -
  let ?P = "\<lambda>e::transporter. name_type (fst e) = None"
  have f: "find ?P l = None"
    using assms(1) unfolding split_by_type_eq assms(2) [symmetric] by (auto split: option.splits)
  then have gs: "gs = groups_in_order (map typed l)"
    using assms(1) unfolding split_by_type_eq assms(2) [symmetric] by simp
  have ok: "\<forall>e \<in> set l. name_type (fst e) \<noteq> None" using f by (simp add: find_None_all)
  have "mset (map snd (concat gs)) = image_mset snd (mset (concat gs))" by simp
  also have "\<dots> = image_mset snd (mset (map typed l))" by (simp only: gs mset_concat_groups)
  also have "\<dots> = mset l" by (simp add: typed_def comp_def multiset.map_comp)
  finally have 1: "mset (map snd (concat gs)) = mset l" .
  have 2: "\<forall>g \<in> set gs. \<forall>x \<in> set g. name_type (fst (snd x)) = Some (fst x)"
  proof (intro ballI)
    fix g x assume "g \<in> set gs" "x \<in> set g"
    then have "x \<in> set (map typed l)" using groups_in_order_members gs by blast
    then obtain e where "e \<in> set l" "x = typed e" by auto
    then show "name_type (fst (snd x)) = Some (fst x)" using ok by (auto simp: typed_def)
  qed
  have 3: "\<forall>g \<in> set gs. \<forall>x \<in> set g. \<forall>y \<in> set g. fst x = fst y"
    using groups_in_order_members gs by metis
  show ?thesis using 1 2 3 by blast
qed

theorem split_by_type_keeps_records_witness:
  "split_by_type [] (Some [(''a_X_1'', None, None), (''b_Y_'', Some 2, None), (''a_X_1'', None, None)]) =
     Inr [[(''X'', ''a_X_1'', None, None), (''X'', ''a_X_1'', None, None)], [(''Y'', ''b_Y_'', Some 2, None)]]
   \<and> mset (map snd (concat [[(''X'', ''a_X_1'', None, None), (''X'', ''a_X_1'', None, None)],
                             [(''Y'', ''b_Y_'', Some (2::rat), None :: string option)]])) =
       mset [(''a_X_1'', None, None), (''b_Y_'', Some 2, None), (''a_X_1'', None, None)]
   \<and> name_type ''a_X_1'' = Some ''X'' \<and> name_type ''b_Y_'' = Some ''Y''"
proof -
  let ?l = "[(''a_X_1'', None, None), (''b_Y_'', Some 2, None), (''a_X_1'', None, None)] :: transporter list"
  let ?gs = "[[(''X'', ''a_X_1'', None, None), (''X'', ''a_X_1'', None, None)],
              [(''Y'', ''b_Y_'', Some 2, None)]] :: typed_transporter list list"
  have a: "split_by_type [] (Some ?l) = Inr ?gs" by code_simp
  have b: "?l = (case Some ?l of None \<Rightarrow> [] | Some l' \<Rightarrow> l')" by simp
  show ?thesis using split_by_type_keeps_records [OF a b] a by simp
qed

text \<open>
  Claim C10. The name pattern needs a second underscore: a name has no type code exactly
  when it has fewer than two underscores, as \<open>a_b\<close> has; the type code is the text
  between the first and the second underscore, which may be empty; and
  \<open>split_by_type\<close> raises the SyntaxError with the name of the first record that has
  fewer than two underscores.
\<close>

theorem split_by_type_needs_two_underscores:
  "(name_type name = None \<longleftrightarrow> count_list name CHR ''_'' < 2)
   \<and> (CHR ''_'' \<notin> set a \<and> CHR ''_'' \<notin> set t \<longrightarrow>
        name_type (a @ CHR ''_'' # t @ CHR ''_'' # r) = Some t)
   \<and> ((\<forall>x \<in> set pre. name_type (fst x) \<noteq> None) \<and> count_list (fst e) CHR ''_'' < 2 \<longrightarrow>
        split_by_type st (Some (pre @ e # post)) = Inl (SyntaxError_name (fst e)))"
proof -
  have 1: "name_type name = None \<longleftrightarrow> count_list name CHR ''_'' < 2"
    by (simp only: name_type_eq type_code_None)
  have 2: "CHR ''_'' \<notin> set a \<and> CHR ''_'' \<notin> set t \<longrightarrow>
        name_type (a @ CHR ''_'' # t @ CHR ''_'' # r) = Some t"
    by (simp only: name_type_eq) (simp add: type_code_between)
  have 3: "(\<forall>x \<in> set pre. name_type (fst x) \<noteq> None) \<and> count_list (fst e) CHR ''_'' < 2 \<longrightarrow>
        split_by_type st (Some (pre @ e # post)) = Inl (SyntaxError_name (fst e))"
  proof
    assume h: "(\<forall>x \<in> set pre. name_type (fst x) \<noteq> None) \<and> count_list (fst e) CHR ''_'' < 2"
    then have "name_type (fst e) = None" by (simp only: name_type_eq type_code_None)
    then have "find (\<lambda>e. name_type (fst e) = None) (pre @ e # post) = Some e"
      using h by (intro find_first) auto
    then show "split_by_type st (Some (pre @ e # post)) = Inl (SyntaxError_name (fst e))"
      unfolding split_by_type_eq by simp
  qed
  show ?thesis using 1 2 3 by blast
qed

theorem split_by_type_needs_two_underscores_witness:
  "name_type ''a_b'' = None \<and> count_list ''a_b'' CHR ''_'' < 2
   \<and> CHR ''_'' \<notin> set ''trans'' \<and> CHR ''_'' \<notin> set ''c''
   \<and> name_type ''trans_c_glu'' = Some ''c''
   \<and> name_type ''a__b'' = Some ''''
   \<and> name_type ''x_c_y'' \<noteq> None
   \<and> split_by_type [] (Some ([(''x_c_y'', None, None)] @ (''a_b'', None, None) # [(''noUnderscore'', None, None)]))
       = Inl (SyntaxError_name ''a_b'')"
proof -
  have c: "count_list ''a_b'' CHR ''_'' < 2" by simp
  have s: "CHR ''_'' \<notin> set ''trans'' \<and> CHR ''_'' \<notin> set ''c''" "CHR ''_'' \<notin> set '''' \<and> CHR ''_'' \<notin> set ''''" by simp_all
  have p: "name_type ''x_c_y'' \<noteq> None" by code_simp
  have q: "\<forall>x \<in> set [(''x_c_y'', None :: rat option, None :: string option)]. name_type (fst x) \<noteq> None"
    using p by simp
  show ?thesis
    using split_by_type_needs_two_underscores [of "''a_b''" "''trans''" "''c''" "''glu''"
        "[(''x_c_y'', None, None)]" "(''a_b'', None, None)" "[]" "[(''noUnderscore'', None, None)]"]
      split_by_type_needs_two_underscores [of "''a_b''" "''a''" "''''" "''b''"
        "[]" "(''a_b'', None, None)" "[]" "[]"]
      c s p q by simp
qed

section \<open>Lines outside the documented format\<close>

text \<open>
  Claim C4. A line that is neither blank nor a comment and is not of the format
  \<open><name> [<factor>] [co(<name>)]\<close> is to raise the SyntaxError with its line number.
  The handler for it is there, but the line pattern matches a prefix of every line, so
  the handler is never reached: the line below, whose \<open>co(\<close> clause is not closed,
  is accepted, and its record has no cotransporter.
\<close>

theorem parse_unclosed_co_accepted:
  "parse [] [''trans_c_glu 1.5 co(trans_n_nh3''] =
     ([(''trans_c_glu'', Some (3 / 2), None)], Inr [(''trans_c_glu'', Some (3 / 2), None)])"
  by code_simp

text \<open>
  Claim C5 says that the first line \<open>trans_c_glu abc\<close> raises the ValueError with
  line 1 and the token \<open>abc\<close>. It does not: a factor token holds digits and dots
  only, so \<open>abc\<close> never reaches the conversion.
\<close>

theorem parse_abc_counterexample:
  "snd (parse [] [''trans_c_glu abc'']) \<noteq> Inl (ValueError ''abc'' 1)"
  by code_simp

text \<open>
  Claim C5, amended. A first line \<open>trans_c_glu 1.2.3\<close> raises the ValueError with
  line 1 and the token \<open>1.2.3\<close>, whatever lines follow and whatever the list holds;
  a first line \<open>trans_c_glu abc\<close> raises no ValueError for line 1.
\<close>

theorem parse_invalid_factor_line:
  "snd (parse st (''trans_c_glu 1.2.3'' # ls)) = Inl (ValueError ''1.2.3'' 1)
   \<and> snd (parse st (''trans_c_glu abc'' # ls)) \<noteq> Inl (ValueError tok 1)"
proof -
  have a: "parse_line (Suc 0) ''trans_c_glu 1.2.3'' = Inl (ValueError ''1.2.3'' 1)"
    by code_simp
  have b: "parse_line (Suc 0) ''trans_c_glu abc'' = Inr (Some (''trans_c_glu'', None, None))"
    by code_simp
  have 1: "snd (parse st (''trans_c_glu 1.2.3'' # ls)) = Inl (ValueError ''1.2.3'' 1)"
    using a by (simp add: parse_def)
  have 2: "snd (parse st (''trans_c_glu abc'' # ls)) \<noteq> Inl (ValueError tok 1)"
  proof (cases "parse_loop (Suc 0) ls (st @ [(''trans_c_glu'', None, None)])")
    case (Pair ts r)
    show ?thesis
    proof (cases r)
      case None
      then show ?thesis using Pair b by (simp add: parse_def)
    next
      case (Some e)
      have "parse_loop (Suc 0) ls (st @ [(''trans_c_glu'', None, None)]) = (ts, Some e)"
        using Pair Some by simp
      from parse_loop_error_kind [OF this] obtain tok' k where "e = ValueError tok' k" "Suc 0 < k"
        by blast
      then show ?thesis using Pair Some b by (simp add: parse_def)
    qed
  qed
  show ?thesis using 1 2 by blast
qed

theorem parse_invalid_factor_line_witness:
  "snd (parse [] (''trans_c_glu 1.2.3'' # [''x_y_z''])) = Inl (ValueError ''1.2.3'' 1)
   \<and> snd (parse [] (''trans_c_glu abc'' # [''x_y_z''])) \<noteq> Inl (ValueError ''abc'' 1)"
  using parse_invalid_factor_line [of "[]" "[''x_y_z'']" "''abc''"] by simp

end
